theory Spec2Isabelle
  imports Complex_Main
begin

section \<open>Free modules with basis\<close>

text \<open>
  An element of a free module with basis is its dictionary of monomial coefficients
  (\<^verbatim>\<open>_monomial_coefficients\<close>): basis index to coefficient, an absent index meaning
  coefficient zero, the insertion order being irrelevant. The embedding takes the
  coefficient function itself. The coefficients live in a field, where the division of the
  elimination is exact.
\<close>

type_synonym ('k, 'a) element = "'k \<Rightarrow> 'a"

text \<open>
  A \<^verbatim>\<open>CombinatorialFreeModule\<close> is determined by its constructor arguments (it is a
  unique representation), so the identity test \<^verbatim>\<open>is\<close> on two of them is equality of the
  records.
\<close>

record 'i free_module =
  fm_prefix :: string
  fm_keys :: "'i list"

definition monomial :: "'k \<Rightarrow> ('k, 'a::zero_neq_one) element" where
  "monomial k = (\<lambda>i. if i = k then 1 else 0)"

text \<open>The elements of the free module on the keys \<open>ks\<close>: no coefficient outside \<open>ks\<close>.\<close>

definition in_module :: "'k list \<Rightarrow> ('k, 'a::zero) element \<Rightarrow> bool" where
  "in_module ks x \<longleftrightarrow> (\<forall>i. x i \<noteq> 0 \<longrightarrow> i \<in> set ks)"


datatype ('i, 'a) error =
    NotInSpanError "('i, 'a) element"
  | ValueError
  | NotImplementedError
  | AttributeError
  | AssertionError

text \<open>
  The error of a vector outside the span is a \<^verbatim>\<open>ValueError\<close> for Python's
  \<^verbatim>\<open>except ValueError\<close>.
\<close>

fun is_ValueError :: "('i, 'a) error \<Rightarrow> bool" where
  "is_ValueError (NotInSpanError r) = True"
| "is_ValueError ValueError = True"
| "is_ValueError NotImplementedError = False"
| "is_ValueError AttributeError = False"
| "is_ValueError AssertionError = False"


section \<open>SubmoduleWithBasis\<close>

text \<open>
  The fields that \<^verbatim>\<open>SubmoduleWithBasis.__init__\<close> stores: \<^verbatim>\<open>_ambient\<close>, the family
  \<^verbatim>\<open>_basis\<close> (its keys and the vector of each key), \<^verbatim>\<open>_support_order\<close> and
  \<^verbatim>\<open>_unitriangular\<close>. A record holds a finite family.
\<close>

record ('g, 'i, 'a) submodule_with_basis =
  ambient :: "'i free_module"
  basis_keys :: "'g list"
  basis :: "'g \<Rightarrow> ('i, 'a) element"
  support_order :: "'i list"
  unitriangular :: bool

text \<open>\<^verbatim>\<open>self.lift_on_basis = self._basis.__getitem__\<close>\<close>

definition lift_on_basis :: "('g, 'i, 'a) submodule_with_basis \<Rightarrow> 'g \<Rightarrow> ('i, 'a) element" where
  "lift_on_basis S g = basis S g"

text \<open>The elements of the submodule: coefficient functions on the keys of the family.\<close>

definition in_submodule :: "('g, 'i, 'a::field) submodule_with_basis \<Rightarrow> ('g, 'a) element \<Rightarrow> bool" where
  "in_submodule S y \<longleftrightarrow> in_module (basis_keys S) y"


subsection \<open>The triangular solver\<close>

text \<open>
  Modelled from the spec: the triangular morphism machinery behind
  \<^verbatim>\<open>module_morphism(..., triangular="lower", cmp=support_cmp, inverse_on_support="compute")\<close>,
  its \<^verbatim>\<open>section()\<close> and its \<^verbatim>\<open>cokernel_projection()\<close> are not among the sources. They
  follow section 4.1 of the spec (\<^verbatim>\<open>solve_coefficients\<close>, \<^verbatim>\<open>reduce\<close>) and the invariant of
  its data model: the pivot of an echelon vector is its nonzero coefficient at the earliest
  position of the support order, every coefficient at an earlier position being zero. The
  leading term of a residual is likewise its nonzero coefficient at the earliest position
  of the support order (\<^verbatim>\<open>support_cmp\<close> compares positions in \<^verbatim>\<open>_support_order\<close>).
\<close>

definition leading_index :: "'i list \<Rightarrow> ('i, 'a::zero) element \<Rightarrow> 'i option" where
  "leading_index order v = find (\<lambda>j. v j \<noteq> 0) order"

definition pivot :: "('g, 'i, 'a::field) submodule_with_basis \<Rightarrow> 'g \<Rightarrow> 'i option" where
  "pivot S g = leading_index (support_order S) (lift_on_basis S g)"

text \<open>The generator whose pivot is the index \<open>j\<close>, if there is one.\<close>

definition pivot_owner :: "('g, 'i, 'a::field) submodule_with_basis \<Rightarrow> 'i \<Rightarrow> 'g option" where
  "pivot_owner S j = find (\<lambda>g. pivot S g = Some j) (basis_keys S)"

text \<open>
  The multiplier \<open>c = residual_coeff / pivot_coeff\<close>; with the unitriangular flag the
  pivot coefficient is taken to be the identity and nothing is divided.
\<close>

definition multiplier :: "('g, 'i, 'a::field) submodule_with_basis \<Rightarrow> 'a \<Rightarrow> 'a \<Rightarrow> 'a" where
  "multiplier S r p = (if unitriangular S then r else r / p)"

text \<open>Subtracting \<open>c * basis[g]\<close> from the residual.\<close>

definition eliminate_step ::
  "('g, 'i, 'a::field) submodule_with_basis \<Rightarrow> 'i \<Rightarrow> 'g \<Rightarrow> ('i, 'a) element \<Rightarrow> ('i, 'a) element" where
  "eliminate_step S j g residual =
     (\<lambda>i. residual i - multiplier S (residual j) (lift_on_basis S g j) * lift_on_basis S g i)"

text \<open>
  \<^verbatim>\<open>solve_coefficients\<close>: the loop runs until the residual is zero, and fails when the
  leading index of the residual is the pivot of no generator. \<open>None\<close> is a loop that does
  not return.
\<close>

partial_function (option) solve_coefficients_loop ::
  "('g, 'i, 'a::field) submodule_with_basis \<Rightarrow> ('i, 'a) element \<Rightarrow> ('g, 'a) element
     \<Rightarrow> (('i, 'a) error + ('g, 'a) element) option" where
  "solve_coefficients_loop S residual out =
     (case leading_index (support_order S) residual of
        None \<Rightarrow> Some (Inr out)
      | Some j \<Rightarrow>
          (case pivot_owner S j of
             None \<Rightarrow> Some (Inl (NotInSpanError residual))
           | Some g \<Rightarrow>
               solve_coefficients_loop S (eliminate_step S j g residual)
                 (out(g := out g + multiplier S (residual j) (lift_on_basis S g j)))))"

definition solve_coefficients ::
  "('g, 'i, 'a::field) submodule_with_basis \<Rightarrow> ('i, 'a) element
     \<Rightarrow> (('i, 'a) error + ('g, 'a) element) option" where
  "solve_coefficients S v = solve_coefficients_loop S v (\<lambda>g. 0)"

text \<open>
  \<^verbatim>\<open>reduce\<close> of the solver: the same elimination, but a leading term without pivot is
  moved to the result instead of failing.
\<close>

partial_function (option) reduce_loop ::
  "('g, 'i, 'a::field) submodule_with_basis \<Rightarrow> ('i, 'a) element \<Rightarrow> ('i, 'a) element
     \<Rightarrow> ('i, 'a) element option" where
  "reduce_loop S remainder result =
     (case leading_index (support_order S) remainder of
        None \<Rightarrow> Some result
      | Some j \<Rightarrow>
          (case pivot_owner S j of
             None \<Rightarrow> reduce_loop S (remainder(j := 0)) (result(j := result j + remainder j))
           | Some g \<Rightarrow> reduce_loop S (eliminate_step S j g remainder) result))"


subsection \<open>The derived maps\<close>

text \<open>
  \<^verbatim>\<open>lift\<close>: the linear extension of \<^verbatim>\<open>lift_on_basis\<close> from the generators to the
  submodule.
\<close>

definition lift :: "('g, 'i, 'a::field) submodule_with_basis \<Rightarrow> ('g, 'a) element \<Rightarrow> ('i, 'a) element" where
  "lift S y = (\<lambda>i. \<Sum>g\<in>set (basis_keys S). y g * lift_on_basis S g i)"

text \<open>\<^verbatim>\<open>reduce = self.lift.cokernel_projection()\<close>\<close>

definition reduce :: "('g, 'i, 'a::field) submodule_with_basis \<Rightarrow> ('i, 'a) element \<Rightarrow> ('i, 'a) element option" where
  "reduce S v = reduce_loop S v (\<lambda>i. 0)"

text \<open>\<^verbatim>\<open>retract = self.lift.section()\<close>\<close>

definition retract ::
  "('g, 'i, 'a::field) submodule_with_basis \<Rightarrow> ('i, 'a) element
     \<Rightarrow> (('i, 'a) error + ('g, 'a) element) option" where
  "retract S x = solve_coefficients S x"

text \<open>
  A \<^verbatim>\<open>SubmoduleWithBasis\<close> object: one with a finite family, on which the derived maps
  are defined, or one with an infinite family, of which only the ambient module is modelled
  (it is not in the category \<^verbatim>\<open>ModulesWithBasis.FiniteDimensional\<close>, and the pivots of an
  infinite family cannot be enumerated).
\<close>

datatype ('g, 'i, 'a) submodule =
    FiniteRank "('g, 'i, 'a) submodule_with_basis"
  | InfiniteRank "'i free_module"

text \<open>What \<^verbatim>\<open>is_submodule\<close> may receive as \<^verbatim>\<open>other\<close>.\<close>

datatype ('g, 'i, 'a) module =
    AmbientModule "'i free_module"
  | Submodule "('g, 'i, 'a) submodule"

fun sub_ambient :: "('g, 'i, 'a) submodule \<Rightarrow> 'i free_module" where
  "sub_ambient (FiniteRank S) = ambient S"
| "sub_ambient (InfiniteRank X) = X"

text \<open>\<^verbatim>\<open>self in ModulesWithBasis.FiniteDimensional\<close>\<close>

fun finite_dimensional :: "('g, 'i, 'a) submodule \<Rightarrow> bool" where
  "finite_dimensional (FiniteRank S) = True"
| "finite_dimensional (InfiniteRank X) = False"

text \<open>
  \<^verbatim>\<open>isinstance(self, SubmoduleWithBasis)\<close>: \<^verbatim>\<open>self\<close> is the object whose method runs.
\<close>

definition isinstance_SubmoduleWithBasis :: "('g, 'i, 'a) submodule \<Rightarrow> bool" where
  "isinstance_SubmoduleWithBasis self = True"

text \<open>
  \<^verbatim>\<open>other.ambient()\<close>: a \<^verbatim>\<open>CombinatorialFreeModule\<close> has no such method. In
  \<^verbatim>\<open>is_submodule\<close> it is the right operand of an \<^verbatim>\<open>and\<close>, evaluated only when the left
  operand is true.
\<close>

fun other_ambient :: "('g, 'i, 'a) module \<Rightarrow> 'i free_module option" where
  "other_ambient (AmbientModule X) = None"
| "other_ambient (Submodule K) = Some (sub_ambient K)"

text \<open>
  \<^verbatim>\<open>other.retract(x)\<close>: the ambient module has no \<^verbatim>\<open>retract\<close>; the retraction of an
  infinite family does not return. The argument is taken by its coefficients (the check of
  its parent belongs to the coercion framework, outside this file).
\<close>

fun other_retract ::
  "('g, 'i, 'a::field) module \<Rightarrow> ('i, 'a) element \<Rightarrow> (('i, 'a) error + ('g, 'a) element) option" where
  "other_retract (AmbientModule X) x = Some (Inl AttributeError)"
| "other_retract (Submodule (FiniteRank K)) x = retract K x"
| "other_retract (Submodule (InfiniteRank X)) x = None"

text \<open>
  The loop \<^verbatim>\<open>for b in self.basis(): try: other.retract(b.lift()) except ValueError: return False\<close>
  and the final \<^verbatim>\<open>return True\<close>. An error that is not a \<^verbatim>\<open>ValueError\<close> propagates.
\<close>

fun is_submodule_loop ::
  "('g, 'i, 'a::field) submodule_with_basis \<Rightarrow> ('g, 'i, 'a) module \<Rightarrow> 'g list
     \<Rightarrow> (('i, 'a) error + bool) option" where
  "is_submodule_loop S other [] = Some (Inr True)"
| "is_submodule_loop S other (b # bs) =
     (case other_retract other (lift S (monomial b)) of
        None \<Rightarrow> None
      | Some (Inl e) \<Rightarrow> if is_ValueError e then Some (Inr False) else Some (Inl e)
      | Some (Inr y) \<Rightarrow> is_submodule_loop S other bs)"

definition is_submodule ::
  "('g, 'i, 'a::field) submodule \<Rightarrow> ('g, 'i, 'a) module \<Rightarrow> (('i, 'a) error + bool) option" where
  "is_submodule self other =
     (if other = AmbientModule (sub_ambient self) then Some (Inr True)
      else if \<not> isinstance_SubmoduleWithBasis self \<and> other_ambient other = Some (sub_ambient self)
        then Some (Inl ValueError)
      else if \<not> finite_dimensional self then Some (Inl NotImplementedError)
      else (case self of
              FiniteRank S \<Rightarrow> is_submodule_loop S other (basis_keys S)
            | InfiniteRank X \<Rightarrow> Some (Inl NotImplementedError)))"


section \<open>QuotientModuleWithBasis\<close>







section \<open>Well-formed submodules\<close>

text \<open>
  The invariant of the data model: every echelon vector has a pivot on the support order,
  and distinct generators have distinct pivots.
\<close>

definition echelon_form :: "('g, 'i, 'a::field) submodule_with_basis \<Rightarrow> bool" where
  "echelon_form S \<longleftrightarrow>
     (\<forall>g\<in>set (basis_keys S). pivot S g \<noteq> None) \<and>
     (\<forall>g\<in>set (basis_keys S). \<forall>h\<in>set (basis_keys S). pivot S g = pivot S h \<longrightarrow> g = h)"

text \<open>The unitriangular flag is accurate: when it is set, every pivot coefficient is one.\<close>

definition unitriangular_accurate :: "('g, 'i, 'a::field) submodule_with_basis \<Rightarrow> bool" where
  "unitriangular_accurate S \<longleftrightarrow>
     (unitriangular S \<longrightarrow>
        (\<forall>g\<in>set (basis_keys S). \<forall>j\<in>set (support_order S).
           pivot S g = Some j \<longrightarrow> lift_on_basis S g j = 1))"



section \<open>The elimination as one pass over the support order\<close>

text \<open>
  Reference functions for the proofs: the loops visit the support order from its first
  position on, so each of them is one pass over the support order.
\<close>

fun eliminate ::
  "('g, 'i, 'a::field) submodule_with_basis \<Rightarrow> 'i list \<Rightarrow> ('i, 'a) element \<Rightarrow> ('i, 'a) element" where
  "eliminate S [] v = v"
| "eliminate S (j # js) v =
     eliminate S js (case pivot_owner S j of None \<Rightarrow> v | Some g \<Rightarrow> eliminate_step S j g v)"

fun solve_pass ::
  "('g, 'i, 'a::field) submodule_with_basis \<Rightarrow> 'i list \<Rightarrow> ('i, 'a) element \<Rightarrow> ('g, 'a) element
     \<Rightarrow> ('i, 'a) error + ('g, 'a) element" where
  "solve_pass S [] r out = Inr out"
| "solve_pass S (j # js) r out =
     (if r j = 0 then solve_pass S js r out
      else (case pivot_owner S j of
              None \<Rightarrow> Inl (NotInSpanError r)
            | Some g \<Rightarrow>
                solve_pass S js (eliminate_step S j g r)
                  (out(g := out g + multiplier S (r j) (lift_on_basis S g j)))))"

text \<open>The result of \<^verbatim>\<open>reduce\<close> in one pass: nothing outside the support order.\<close>

definition reduced :: "('g, 'i, 'a::field) submodule_with_basis \<Rightarrow> ('i, 'a) element \<Rightarrow> ('i, 'a) element" where
  "reduced S v = (\<lambda>i. if i \<in> set (support_order S) then eliminate S (support_order S) v i else 0)"


section \<open>The modules of the documentation\<close>

text \<open>
  The family of a tuple of vectors has the keys \<open>0, 1, \<dots>\<close> (\<^verbatim>\<open>Family((v0, v1))\<close>).
\<close>

definition family :: "('i, 'a::zero) element list \<Rightarrow> nat \<Rightarrow> ('i, 'a) element" where
  "family vs g = (if g < length vs then vs ! g else (\<lambda>i. 0))"

text \<open>\<^verbatim>\<open>X = CombinatorialFreeModule(QQ, range(3), prefix="x"); x = X.basis()\<close>\<close>

definition X3 :: "nat free_module" where
  "X3 = \<lparr>fm_prefix = ''x'', fm_keys = [0, 1, 2]\<rparr>"

definition X4 :: "nat free_module" where
  "X4 = \<lparr>fm_prefix = ''x'', fm_keys = [0, 1, 2, 3]\<rparr>"

definition xb :: "nat \<Rightarrow> (nat, rat) element" where
  "xb k = monomial k"

text \<open>\<^verbatim>\<open>SubmoduleWithBasis((x[0]-x[1], x[1]-x[2]), [0,1,2], X)\<close>, unitriangular.\<close>

definition I3 :: "(nat, nat, rat) submodule_with_basis" where
  "I3 = \<lparr>ambient = X3, basis_keys = [0, 1],
          basis = family [\<lambda>i. xb 0 i - xb 1 i, \<lambda>i. xb 1 i - xb 2 i],
          support_order = [0, 1, 2], unitriangular = True\<rparr>"


text \<open>The zero submodule of \<open>X3\<close>: an empty family.\<close>

definition Z3 :: "(nat, nat, rat) submodule_with_basis" where
  "Z3 = \<lparr>ambient = X3, basis_keys = [],
          basis = family [],
          support_order = [0, 1, 2], unitriangular = False\<rparr>"

text \<open>
  The submodules of the docstring of \<^verbatim>\<open>is_submodule\<close>, in the free module on
  \<^verbatim>\<open>range(4)\<close>: \<open>F4\<close> spanned by \<^verbatim>\<open>x[0]-x[1], x[1]-x[2], x[2]-x[3]\<close>, \<open>G4\<close> by
  \<^verbatim>\<open>x[0]-x[2]\<close> and \<open>H4\<close> by \<^verbatim>\<open>x[0]-x[1], x[2]\<close>.
\<close>

definition F4 :: "(nat, nat, rat) submodule_with_basis" where
  "F4 = \<lparr>ambient = X4, basis_keys = [0, 1, 2],
          basis = family [\<lambda>i. xb 0 i - xb 1 i, \<lambda>i. xb 1 i - xb 2 i, \<lambda>i. xb 2 i - xb 3 i],
          support_order = [0, 1, 2, 3], unitriangular = False\<rparr>"

definition G4 :: "(nat, nat, rat) submodule_with_basis" where
  "G4 = \<lparr>ambient = X4, basis_keys = [0],
          basis = family [\<lambda>i. xb 0 i - xb 2 i],
          support_order = [0, 1, 2, 3], unitriangular = False\<rparr>"

definition H4 :: "(nat, nat, rat) submodule_with_basis" where
  "H4 = \<lparr>ambient = X4, basis_keys = [0, 1],
          basis = family [\<lambda>i. xb 0 i - xb 1 i, \<lambda>i. xb 2 i],
          support_order = [0, 1, 2, 3], unitriangular = False\<rparr>"


section \<open>Lists and pivots\<close>

lemma find_Some_mem: "find P xs = Some j \<Longrightarrow> P j \<and> j \<in> set xs"
  by (induction xs) (auto split: if_splits)

lemma find_Some_prefix: "find P (pre @ suf) = Some j \<Longrightarrow> j \<notin> set pre \<Longrightarrow> i \<in> set pre \<Longrightarrow> \<not> P i"
  by (induction pre) (auto split: if_splits)

lemma find_skip_prefix: "\<forall>i\<in>set pre. \<not> P i \<Longrightarrow> find P (pre @ suf) = find P suf"
  by (induction pre) auto

lemma multiplier_zero: "multiplier S 0 p = 0"
  by (simp add: multiplier_def)

lemma multiplier_linear:
  "multiplier S (a * r + s) p = a * multiplier S r p + multiplier S s p"
  by (simp add: multiplier_def add_divide_distrib)

lemma pivot_owner_SomeD:
  "pivot_owner S j = Some g \<Longrightarrow> g \<in> set (basis_keys S) \<and> pivot S g = Some j"
  unfolding pivot_owner_def by (drule find_Some_mem) simp

lemma pivot_SomeD:
  "pivot S g = Some j \<Longrightarrow> lift_on_basis S g j \<noteq> 0 \<and> j \<in> set (support_order S)"
  unfolding pivot_def leading_index_def by (drule find_Some_mem) simp

lemma pivot_zero_before:
  "pivot S g = Some j \<Longrightarrow> support_order S = pre @ rest \<Longrightarrow> j \<notin> set pre \<Longrightarrow> i \<in> set pre
     \<Longrightarrow> lift_on_basis S g i = 0"
  unfolding pivot_def leading_index_def using find_Some_prefix[of "\<lambda>j. lift_on_basis S g j \<noteq> 0" pre rest j i]
  by auto

lemma leading_index_skip:
  "\<forall>i\<in>set pre. r i = 0 \<Longrightarrow> leading_index (pre @ suf) r = leading_index suf r"
  unfolding leading_index_def by (rule find_skip_prefix) simp

lemma eliminate_step_zero: "r j = 0 \<Longrightarrow> eliminate_step S j g r = r"
  by (simp add: eliminate_step_def multiplier_zero)

lemma eliminate_step_kills:
  assumes "unitriangular_accurate S" "pivot_owner S j = Some g"
  shows "eliminate_step S j g r j = 0"
proof -
  from assms(2) have g: "g \<in> set (basis_keys S)" and p: "pivot S g = Some j"
    by (auto dest: pivot_owner_SomeD)
  from p have nz: "lift_on_basis S g j \<noteq> 0" and j: "j \<in> set (support_order S)"
    by (auto dest: pivot_SomeD)
  show ?thesis
  proof (cases "unitriangular S")
    case True
    with assms(1) g j p have "lift_on_basis S g j = 1"
      by (auto simp: unitriangular_accurate_def)
    with True show ?thesis by (simp add: eliminate_step_def multiplier_def)
  next
    case False
    with nz show ?thesis by (simp add: eliminate_step_def multiplier_def)
  qed
qed

lemma eliminate_step_prefix:
  assumes "pivot_owner S j = Some g" "support_order S = pre @ rest" "j \<notin> set pre" "i \<in> set pre"
  shows "eliminate_step S j g r i = r i"
proof -
  from assms(1) have "pivot S g = Some j" by (auto dest: pivot_owner_SomeD)
  from pivot_zero_before[OF this assms(2,3,4)] show ?thesis
    by (simp add: eliminate_step_def)
qed

lemma eliminate_step_linear:
  "eliminate_step S j g (\<lambda>i. a * v i + w i) = (\<lambda>i. a * eliminate_step S j g v i + eliminate_step S j g w i)"
proof (rule ext)
  fix i
  have "multiplier S (a * v j + w j) (lift_on_basis S g j)
      = a * multiplier S (v j) (lift_on_basis S g j) + multiplier S (w j) (lift_on_basis S g j)"
    by (rule multiplier_linear)
  then show "eliminate_step S j g (\<lambda>i. a * v i + w i) i
      = a * eliminate_step S j g v i + eliminate_step S j g w i"
    by (simp add: eliminate_step_def algebra_simps)
qed

lemma eliminate_linear:
  "eliminate S js (\<lambda>i. a * v i + w i) = (\<lambda>i. a * eliminate S js v i + eliminate S js w i)"
proof (induction js arbitrary: v w)
  case Nil
  show ?case by simp
next
  case (Cons j js)
  show ?case
  proof (cases "pivot_owner S j")
    case None
    then show ?thesis using Cons.IH[of v w] by simp
  next
    case (Some g)
    then show ?thesis
      using Cons.IH[of "eliminate_step S j g v" "eliminate_step S j g w"]
      by (simp add: eliminate_step_linear)
  qed
qed


lemma eliminate_noop:
  "\<forall>k\<in>set js. pivot_owner S k \<noteq> None \<longrightarrow> v k = 0 \<Longrightarrow> eliminate S js v = v"
  by (induction js) (auto simp: eliminate_step_zero split: option.splits)

lemma eliminate_zero_on:
  assumes "support_order S = pre @ rest" "\<forall>i\<in>set pre. v i = 0"
  shows "\<forall>i\<in>set pre. eliminate S js v i = 0"
  using assms(2)
proof (induction js arbitrary: v)
  case Nil
  then show ?case by simp
next
  case (Cons j js)
  show ?case
  proof (cases "pivot_owner S j")
    case None
    then show ?thesis using Cons.IH[OF Cons.prems] by simp
  next
    case (Some g)
    have "\<forall>i\<in>set pre. eliminate_step S j g v i = 0"
    proof (cases "j \<in> set pre")
      case True
      with Cons.prems have "v j = 0" by simp
      then show ?thesis using Cons.prems by (simp add: eliminate_step_zero)
    next
      case False
      then show ?thesis
        using Cons.prems eliminate_step_prefix[OF Some assms(1) False] by simp
    qed
    from Cons.IH[OF this] Some show ?thesis by simp
  qed
qed


lemma reduce_loop_eq:
  assumes acc: "unitriangular_accurate S"
  shows "support_order S = pre @ suf \<Longrightarrow> \<forall>i\<in>set pre. rem i = 0
     \<Longrightarrow> reduce_loop S rem res = Some (\<lambda>i. res i + (if i \<in> set suf then eliminate S suf rem i else 0))"
proof (induction suf arbitrary: pre rem res)
  case Nil
  then have "leading_index (support_order S) rem = None"
    by (simp add: leading_index_def find_None_iff)
  then show ?case by (subst reduce_loop.simps) simp
next
  case (Cons j suf)
  have ord: "support_order S = (pre @ [j]) @ suf" using Cons.prems(1) by simp
  show ?case
  proof (cases "rem j = 0")
    case True
    then have z: "\<forall>i\<in>set (pre @ [j]). rem i = 0" using Cons.prems(2) by simp
    have same: "eliminate S (j # suf) rem = eliminate S suf rem"
      using True by (simp add: eliminate_step_zero split: option.splits)
    have e2: "eliminate S suf rem j = 0"
      by (rule eliminate_zero_on[OF ord z, THEN bspec]) simp
    have ih: "reduce_loop S rem res
        = Some (\<lambda>i. res i + (if i \<in> set suf then eliminate S suf rem i else 0))"
      by (rule Cons.IH[OF ord z])
    have "(\<lambda>i. res i + (if i \<in> set suf then eliminate S suf rem i else 0))
        = (\<lambda>i. res i + (if i \<in> set (j # suf) then eliminate S suf rem i else 0))"
      using e2 by (auto simp: fun_eq_iff)
    then show ?thesis
      unfolding ih same by simp
  next
    case False
    then have jpre: "j \<notin> set pre" using Cons.prems(2) by auto
    have lead: "leading_index (support_order S) rem = Some j"
      using Cons.prems False by (simp add: leading_index_skip) (simp add: leading_index_def)
    show ?thesis
    proof (cases "pivot_owner S j")
      case None
      let ?rem = "rem(j := 0)" and ?res = "res(j := res j + rem j)"
      have z: "\<forall>i\<in>set (pre @ [j]). ?rem i = 0" using Cons.prems(2) by simp
      have step: "reduce_loop S rem res = reduce_loop S ?rem ?res"
        by (subst reduce_loop.simps) (simp add: lead None)
      have split: "rem = (\<lambda>i. rem j * monomial j i + ?rem i)"
        by (auto simp: fun_eq_iff monomial_def)
      have mono: "eliminate S suf (monomial j) = (monomial j :: 'b \<Rightarrow> 'c)"
        by (rule eliminate_noop) (auto simp: monomial_def None)
      have e1: "eliminate S suf rem = (\<lambda>i. rem j * monomial j i + eliminate S suf ?rem i)"
        by (subst split, subst eliminate_linear) (simp add: mono)
      have e2: "eliminate S suf ?rem j = 0"
        by (rule eliminate_zero_on[OF ord z, THEN bspec]) simp
      have e3: "eliminate S (j # suf) rem = eliminate S suf rem"
        using None by simp
      have ih: "reduce_loop S ?rem ?res
          = Some (\<lambda>i. ?res i + (if i \<in> set suf then eliminate S suf ?rem i else 0))"
        by (rule Cons.IH[OF ord z])
      have "(\<lambda>i. ?res i + (if i \<in> set suf then eliminate S suf ?rem i else 0))
          = (\<lambda>i. res i + (if i \<in> set (j # suf) then eliminate S suf rem i else 0))"
      proof (rule ext)
        fix i
        show "?res i + (if i \<in> set suf then eliminate S suf ?rem i else 0)
          = res i + (if i \<in> set (j # suf) then eliminate S suf rem i else 0)"
          using e2 by (cases "i = j") (simp_all add: e1 monomial_def)
      qed
      then show ?thesis
        unfolding step ih e3 by simp
    next
      case (Some g)
      let ?rem = "eliminate_step S j g rem"
      have z: "\<forall>i\<in>set (pre @ [j]). ?rem i = 0"
        using Cons.prems(2) eliminate_step_prefix[OF Some Cons.prems(1) jpre]
          eliminate_step_kills[OF acc Some] by simp
      have step: "reduce_loop S rem res = reduce_loop S ?rem res"
        by (subst reduce_loop.simps) (simp add: lead Some)
      have e2: "eliminate S suf ?rem j = 0"
        by (rule eliminate_zero_on[OF ord z, THEN bspec]) simp
      have e3: "eliminate S (j # suf) rem = eliminate S suf ?rem"
        using Some by simp
      have ih: "reduce_loop S ?rem res
          = Some (\<lambda>i. res i + (if i \<in> set suf then eliminate S suf ?rem i else 0))"
        by (rule Cons.IH[OF ord z])
      have "(\<lambda>i. res i + (if i \<in> set suf then eliminate S suf ?rem i else 0))
          = (\<lambda>i. res i + (if i \<in> set (j # suf) then eliminate S suf ?rem i else 0))"
        using e2 by (auto simp: fun_eq_iff)
      then show ?thesis
        unfolding step ih e3 by simp
    qed
  qed
qed


section \<open>The reduce loop is the one-pass elimination\<close>

lemma reduce_eq_reduced:
  assumes "unitriangular_accurate S"
  shows "reduce S v = Some (reduced S v)"
  using reduce_loop_eq[OF assms, of "[]" "support_order S" v "\<lambda>i. 0"]
  by (simp add: reduce_def reduced_def)


lemma pivot_index_owned:
  assumes "g \<in> set (basis_keys S)" "pivot S g = Some j"
  shows "pivot_owner S j \<noteq> None"
  using assms by (auto simp: pivot_owner_def find_None_iff)






lemma pivot_owner_unique:
  assumes "echelon_form S" "g \<in> set (basis_keys S)" "pivot S g = Some j"
  shows "pivot_owner S j = Some g"
proof -
  from pivot_index_owned[OF assms(2,3)] obtain h where h: "pivot_owner S j = Some h" by auto
  then have "h \<in> set (basis_keys S)" "pivot S h = Some j" by (auto dest: pivot_owner_SomeD)
  with assms have "h = g" by (auto simp: echelon_form_def)
  with h show ?thesis by simp
qed

lemma multiplier_self:
  assumes "unitriangular_accurate S" "g \<in> set (basis_keys S)" "pivot S g = Some j"
  shows "multiplier S (c * lift_on_basis S g j) (lift_on_basis S g j) = c"
proof -
  from assms(3) have nz: "lift_on_basis S g j \<noteq> 0" and j: "j \<in> set (support_order S)"
    by (auto dest: pivot_SomeD)
  show ?thesis
  proof (cases "unitriangular S")
    case True
    with assms j have "lift_on_basis S g j = 1" by (auto simp: unitriangular_accurate_def)
    with True show ?thesis by (simp add: multiplier_def)
  next
    case False
    with nz show ?thesis by (simp add: multiplier_def)
  qed
qed





section \<open>The solve loop is the one-pass solver\<close>

lemma solve_loop_eq:
  assumes acc: "unitriangular_accurate S"
  shows "support_order S = pre @ suf \<Longrightarrow> \<forall>i\<in>set pre. r i = 0
     \<Longrightarrow> solve_coefficients_loop S r out = Some (solve_pass S suf r out)"
proof (induction suf arbitrary: pre r out)
  case Nil
  then have "leading_index (support_order S) r = None"
    by (simp add: leading_index_def find_None_iff)
  then show ?case by (subst solve_coefficients_loop.simps) simp
next
  case (Cons j suf)
  have ord: "support_order S = (pre @ [j]) @ suf" using Cons.prems(1) by simp
  show ?case
  proof (cases "r j = 0")
    case True
    then have z: "\<forall>i\<in>set (pre @ [j]). r i = 0" using Cons.prems(2) by simp
    show ?thesis using Cons.IH[OF ord z, of out] True by simp
  next
    case False
    then have jpre: "j \<notin> set pre" using Cons.prems(2) by auto
    have lead: "leading_index (support_order S) r = Some j"
      using Cons.prems False by (simp add: leading_index_skip) (simp add: leading_index_def)
    show ?thesis
    proof (cases "pivot_owner S j")
      case None
      then show ?thesis
        using False by (subst solve_coefficients_loop.simps) (simp add: lead)
    next
      case (Some g)
      let ?r = "eliminate_step S j g r"
      let ?out = "out(g := out g + multiplier S (r j) (lift_on_basis S g j))"
      have z: "\<forall>i\<in>set (pre @ [j]). ?r i = 0"
        using Cons.prems(2) eliminate_step_prefix[OF Some Cons.prems(1) jpre]
          eliminate_step_kills[OF acc Some] by simp
      have step: "solve_coefficients_loop S r out = solve_coefficients_loop S ?r ?out"
        by (subst solve_coefficients_loop.simps) (simp add: lead Some)
      have ih: "solve_coefficients_loop S ?r ?out = Some (solve_pass S suf ?r ?out)"
        by (rule Cons.IH[OF ord z])
      show ?thesis unfolding step ih using False Some by simp
    qed
  qed
qed

lemma retract_eq_pass:
  assumes "unitriangular_accurate S"
  shows "retract S x = Some (solve_pass S (support_order S) x (\<lambda>g. 0))"
  using solve_loop_eq[OF assms, of "[]" "support_order S" x]
  by (simp add: retract_def solve_coefficients_def)

lemma solve_pass_cases:
  "(\<exists>y. solve_pass S js r out = Inr y) \<or> (\<exists>e. solve_pass S js r out = Inl (NotInSpanError e))"
  by (induction js arbitrary: r out) (auto split: option.splits)

lemma lift_upd:
  assumes "g \<in> set (basis_keys S)"
  shows "lift S (z(g := a)) i = lift S z i + (a - z g) * lift_on_basis S g i"
proof -
  let ?A = "set (basis_keys S)"
  have 1: "(\<Sum>h\<in>?A. (z(g := a)) h * lift_on_basis S h i)
      = a * lift_on_basis S g i + (\<Sum>h\<in>?A - {g}. (z(g := a)) h * lift_on_basis S h i)"
    using assms by (subst sum.remove[of _ g]) simp_all
  have 2: "(\<Sum>h\<in>?A. z h * lift_on_basis S h i)
      = z g * lift_on_basis S g i + (\<Sum>h\<in>?A - {g}. z h * lift_on_basis S h i)"
    using assms by (subst sum.remove[of _ g]) simp_all
  have 3: "(\<Sum>h\<in>?A - {g}. (z(g := a)) h * lift_on_basis S h i)
      = (\<Sum>h\<in>?A - {g}. z h * lift_on_basis S h i)"
    by (rule sum.cong) simp_all
  show ?thesis unfolding lift_def 1 2 3 by (simp add: algebra_simps)
qed


lemma other_term_zero:
  assumes ech: "echelon_form S" and ord: "support_order S = pre @ j # suf"
    and inv: "\<forall>g\<in>set (basis_keys S). \<forall>k\<in>set pre. pivot S g = Some k \<longrightarrow> z g = 0"
    and h: "h \<in> set (basis_keys S)" and np: "pivot S h \<noteq> Some j"
  shows "z h * lift_on_basis S h j = 0"
proof -
  from ech h obtain k where k: "pivot S h = Some k" by (auto simp: echelon_form_def)
  show ?thesis
  proof (cases "k \<in> set pre")
    case True
    with inv h k show ?thesis by simp
  next
    case False
    with np k have "k \<notin> set (pre @ [j])" by simp
    moreover have "support_order S = (pre @ [j]) @ suf" using ord by simp
    ultimately have "lift_on_basis S h j = 0"
      using pivot_zero_before[OF k, of "pre @ [j]" suf j] by simp
    then show ?thesis by simp
  qed
qed

lemma lift_at_pivot:
  assumes ech: "echelon_form S" and ord: "support_order S = pre @ j # suf"
    and inv: "\<forall>g\<in>set (basis_keys S). \<forall>k\<in>set pre. pivot S g = Some k \<longrightarrow> z g = 0"
    and g: "g \<in> set (basis_keys S)" and p: "pivot S g = Some j"
  shows "lift S z j = z g * lift_on_basis S g j"
proof -
  let ?A = "set (basis_keys S)"
  have "(\<Sum>h\<in>?A - {g}. z h * lift_on_basis S h j) = 0"
  proof (rule sum.neutral, rule ballI)
    fix h assume "h \<in> ?A - {g}"
    then have h: "h \<in> ?A" and "h \<noteq> g" by auto
    with ech g p have "pivot S h \<noteq> Some j" by (auto simp: echelon_form_def)
    from other_term_zero[OF ech ord inv h this] show "z h * lift_on_basis S h j = 0" .
  qed
  then show ?thesis
    unfolding lift_def using g by (subst sum.remove[of _ g]) simp_all
qed

lemma lift_no_pivot:
  assumes ech: "echelon_form S" and ord: "support_order S = pre @ j # suf"
    and inv: "\<forall>g\<in>set (basis_keys S). \<forall>k\<in>set pre. pivot S g = Some k \<longrightarrow> z g = 0"
    and np: "\<forall>g\<in>set (basis_keys S). pivot S g \<noteq> Some j"
  shows "lift S z j = 0"
  unfolding lift_def
proof (rule sum.neutral, rule ballI)
  fix h assume h: "h \<in> set (basis_keys S)"
  with np have "pivot S h \<noteq> Some j" by simp
  from other_term_zero[OF ech ord inv h this] show "z h * lift_on_basis S h j = 0" .
qed

lemma solve_pass_lift:
  assumes ech: "echelon_form S" and acc: "unitriangular_accurate S"
  shows "support_order S = pre @ suf \<Longrightarrow> in_submodule S z
     \<Longrightarrow> \<forall>i\<in>set (support_order S). r i = lift S z i
     \<Longrightarrow> \<forall>g\<in>set (basis_keys S). \<forall>k\<in>set pre. pivot S g = Some k \<longrightarrow> z g = 0
     \<Longrightarrow> solve_pass S suf r out = Inr (\<lambda>g. out g + z g)"
proof (induction suf arbitrary: pre r out z)
  case Nil
  have "z g = 0" for g
  proof (cases "g \<in> set (basis_keys S)")
    case True
    with ech obtain k where k: "pivot S g = Some k" by (auto simp: echelon_form_def)
    then have "k \<in> set (support_order S)" by (auto dest: pivot_SomeD)
    with Nil.prems(1,4) True k show ?thesis by simp
  next
    case False
    with Nil.prems(2) show ?thesis by (auto simp: in_submodule_def in_module_def)
  qed
  then show ?case by simp
next
  case (Cons j suf)
  have ord: "support_order S = (pre @ [j]) @ suf" using Cons.prems(1) by simp
  have j: "j \<in> set (support_order S)" using Cons.prems(1) by simp
  show ?case
  proof (cases "r j = 0")
    case True
    have inv: "\<forall>g\<in>set (basis_keys S). \<forall>k\<in>set (pre @ [j]). pivot S g = Some k \<longrightarrow> z g = 0"
    proof (intro ballI impI)
      fix g k assume g: "g \<in> set (basis_keys S)" and k: "k \<in> set (pre @ [j])" and p: "pivot S g = Some k"
      show "z g = 0"
      proof (cases "k \<in> set pre")
        case True
        with Cons.prems(4) g p show ?thesis by simp
      next
        case False
        with k have kj: "k = j" by simp
        have "lift S z j = z g * lift_on_basis S g j"
          using lift_at_pivot[OF ech Cons.prems(1) Cons.prems(4) g] p kj by simp
        moreover have "lift S z j = 0" using Cons.prems(3) j \<open>r j = 0\<close> by simp
        moreover have "lift_on_basis S g j \<noteq> 0" using p kj by (auto dest: pivot_SomeD)
        ultimately show ?thesis by simp
      qed
    qed
    from Cons.IH[OF ord Cons.prems(2,3) inv, of out] True show ?thesis by simp
  next
    case False
    have "\<exists>g\<in>set (basis_keys S). pivot S g = Some j"
    proof (rule ccontr)
      assume "\<not> ?thesis"
      then have "lift S z j = 0"
        using lift_no_pivot[OF ech Cons.prems(1) Cons.prems(4)] by blast
      with Cons.prems(3) j False show False by simp
    qed
    then obtain g where g: "g \<in> set (basis_keys S)" and p: "pivot S g = Some j" by blast
    have own: "pivot_owner S j = Some g" by (rule pivot_owner_unique[OF ech g p])
    have rj: "r j = z g * lift_on_basis S g j"
      using lift_at_pivot[OF ech Cons.prems(1) Cons.prems(4) g p] Cons.prems(3) j by simp
    have c: "multiplier S (r j) (lift_on_basis S g j) = z g"
      unfolding rj by (rule multiplier_self[OF acc g p])
    let ?r = "eliminate_step S j g r"
    let ?out = "out(g := out g + z g)"
    let ?z = "z(g := 0)"
    have sub: "in_submodule S ?z"
      using Cons.prems(2) by (auto simp: in_submodule_def in_module_def)
    have eq: "\<forall>i\<in>set (support_order S). ?r i = lift S ?z i"
      using Cons.prems(3) by (simp add: lift_upd[OF g] eliminate_step_def c)
    have inv: "\<forall>h\<in>set (basis_keys S). \<forall>k\<in>set (pre @ [j]). pivot S h = Some k \<longrightarrow> ?z h = 0"
    proof (intro ballI impI)
      fix h k assume h: "h \<in> set (basis_keys S)" and k: "k \<in> set (pre @ [j])" and ph: "pivot S h = Some k"
      show "?z h = 0"
      proof (cases "k \<in> set pre")
        case True
        with Cons.prems(4) h ph show ?thesis by simp
      next
        case False
        with k have "k = j" by simp
        with ph p ech g h have "h = g" by (auto simp: echelon_form_def)
        then show ?thesis by simp
      qed
    qed
    have "solve_pass S suf ?r ?out = Inr (\<lambda>h. ?out h + ?z h)"
      by (rule Cons.IH[OF ord sub eq inv])
    moreover have "(\<lambda>h. ?out h + ?z h) = (\<lambda>h. out h + z h)" by (auto simp: fun_eq_iff)
    ultimately show ?thesis using False own c by simp
  qed
qed

lemma retract_in_span:
  assumes ech: "echelon_form S" and acc: "unitriangular_accurate S"
    and y: "in_submodule S y" and eq: "\<forall>i\<in>set (support_order S). x i = lift S y i"
  shows "retract S x = Some (Inr y)"
proof -
  have "solve_pass S (support_order S) x (\<lambda>g. 0) = Inr (\<lambda>g. 0 + y g)"
    by (rule solve_pass_lift[OF ech acc, of "[]"]) (use y eq in simp_all)
  then show ?thesis by (simp add: retract_eq_pass[OF acc])
qed


lemma is_submodule_loop_eq:
  assumes acc: "unitriangular_accurate K"
  shows "is_submodule_loop S (Submodule (FiniteRank K)) bs
       = Some (Inr (\<forall>b\<in>set bs. \<exists>y. retract K (lift S (monomial b)) = Some (Inr y)))"
proof (induction bs)
  case Nil
  show ?case by simp
next
  case (Cons b bs)
  let ?x = "lift S (monomial b) :: 'b \<Rightarrow> 'c"
  from solve_pass_cases[of K "support_order K" ?x "\<lambda>g. 0"]
  show ?case
  proof
    assume "\<exists>y. solve_pass K (support_order K) ?x (\<lambda>g. 0) = Inr y"
    then obtain y where "retract K ?x = Some (Inr y)" by (auto simp: retract_eq_pass[OF acc])
    then show ?thesis using Cons.IH by simp
  next
    assume "\<exists>e. solve_pass K (support_order K) ?x (\<lambda>g. 0) = Inl (NotInSpanError e)"
    then obtain e where "retract K ?x = Some (Inl (NotInSpanError e))"
      by (auto simp: retract_eq_pass[OF acc])
    then show ?thesis by simp
  qed
qed


section \<open>The modules of the documentation are well formed\<close>

lemmas example_defs = family_def xb_def monomial_def lift_on_basis_def pivot_def
  leading_index_def pivot_owner_def multiplier_def eliminate_step_def lift_def

lemma I3_echelon: "echelon_form I3"
  by (simp add: echelon_form_def I3_def example_defs)

lemma I3_accurate: "unitriangular_accurate I3"
  by (simp add: unitriangular_accurate_def I3_def example_defs)



lemma F4_accurate: "unitriangular_accurate F4"
  by (simp add: unitriangular_accurate_def F4_def)



lemma G4_in_F4: "\<exists>y. retract F4 (lift G4 (monomial 0)) = Some (Inr y)"
  by (simp add: retract_eq_pass[OF F4_accurate]) (simp add: F4_def G4_def example_defs)

lemma H4_0_in_F4: "\<exists>y. retract F4 (lift H4 (monomial 0)) = Some (Inr y)"
  by (simp add: retract_eq_pass[OF F4_accurate]) (simp add: F4_def H4_def example_defs)

lemma H4_1_not_in_F4: "\<not> (\<exists>y. retract F4 (lift H4 (monomial (Suc 0))) = Some (Inr y))"
  by (simp add: retract_eq_pass[OF F4_accurate]) (simp add: F4_def H4_def example_defs)

lemma I3_reduce_scenario: "reduce I3 (\<lambda>i. 2 * xb 0 i + xb 1 i) = Some (\<lambda>i. 3 * xb 2 i)"
proof -
  have "reduced I3 (\<lambda>i. 2 * xb 0 i + xb 1 i) = (\<lambda>i. 3 * xb 2 i)"
    by (rule ext) (simp add: reduced_def I3_def example_defs)
  then show ?thesis by (simp add: reduce_eq_reduced[OF I3_accurate])
qed


section \<open>The claims\<close>

text \<open>
  C1. For a submodule in echelon form, with an accurate unitriangular flag, and every
  element \<open>y\<close> of the submodule, \<open>retract (lift y)\<close> returns, and returns \<open>y\<close> itself.
\<close>

theorem retract_lift:
  assumes "echelon_form S" "unitriangular_accurate S" "in_submodule S y"
  shows "retract S (lift S y) = Some (Inr y)"
  by (rule retract_in_span[OF assms]) simp

theorem retract_lift_witness:
  "echelon_form I3 \<and> unitriangular_accurate I3
     \<and> in_submodule I3 (\<lambda>g. if g = 0 \<or> g = 1 then 1 else 0)
     \<and> retract I3 (lift I3 (\<lambda>g. if g = 0 \<or> g = 1 then 1 else 0))
         = Some (Inr (\<lambda>g. if g = 0 \<or> g = 1 then 1 else 0))"
proof -
  have y: "in_submodule I3 (\<lambda>g. if g = 0 \<or> g = 1 then 1 else 0)"
    by (simp add: in_submodule_def in_module_def I3_def)
  show ?thesis
    using retract_lift[OF I3_echelon I3_accurate y] I3_echelon I3_accurate y by simp
qed











text \<open>
  C7. \<open>is_submodule\<close> does not raise \<open>ValueError\<close> when the ambient modules of
  \<open>self\<close> and \<open>other\<close> differ: its test for that error starts with
  \<^verbatim>\<open>not isinstance(self, SubmoduleWithBasis)\<close>, which is false. For the zero submodule of
  \<open>X3\<close> and the submodule \<open>F4\<close> of \<open>X4\<close> it returns \<open>True\<close>.
\<close>

theorem is_submodule_other_ambient:
  "sub_ambient (FiniteRank Z3) \<noteq> sub_ambient (FiniteRank F4)
     \<and> is_submodule (FiniteRank Z3) (Submodule (FiniteRank F4)) = Some (Inr True)"
  by (simp add: is_submodule_def isinstance_SubmoduleWithBasis_def Z3_def F4_def X3_def X4_def)

text \<open>
  C8. For a finite family \<open>S\<close> and a submodule \<open>K\<close> with an accurate unitriangular flag,
  \<open>is_submodule\<close> returns whether every basis generator of \<open>S\<close> retracts successfully
  into \<open>K\<close>; and for the modules of the docstring, \<open>F.is_submodule(X)\<close> and
  \<open>G.is_submodule(F)\<close> are \<open>True\<close> and \<open>H.is_submodule(F)\<close> is \<open>False\<close>.
\<close>

theorem is_submodule_iff:
  "(unitriangular_accurate K \<longrightarrow>
      is_submodule (FiniteRank S) (Submodule (FiniteRank K))
        = Some (Inr (\<forall>b\<in>set (basis_keys S). \<exists>y. retract K (lift S (monomial b)) = Some (Inr y))))
   \<and> is_submodule (FiniteRank F4) (AmbientModule X4) = Some (Inr True)
   \<and> is_submodule (FiniteRank G4) (Submodule (FiniteRank F4)) = Some (Inr True)
   \<and> is_submodule (FiniteRank H4) (Submodule (FiniteRank F4)) = Some (Inr False)"
proof -
  have gen: "is_submodule (FiniteRank S') (Submodule (FiniteRank K'))
        = Some (Inr (\<forall>b\<in>set (basis_keys S'). \<exists>y. retract K' (lift S' (monomial b)) = Some (Inr y)))"
    if "unitriangular_accurate K'" for S' K' :: "('a, 'b, 'c::field) submodule_with_basis"
    by (simp add: is_submodule_def isinstance_SubmoduleWithBasis_def is_submodule_loop_eq[OF that])
  have gen4: "is_submodule (FiniteRank S') (Submodule (FiniteRank F4))
        = Some (Inr (\<forall>b\<in>set (basis_keys S'). \<exists>y. retract F4 (lift S' (monomial b)) = Some (Inr y)))"
    for S' :: "(nat, nat, rat) submodule_with_basis"
    by (simp add: is_submodule_def isinstance_SubmoduleWithBasis_def
        is_submodule_loop_eq[OF F4_accurate])
  have f: "is_submodule (FiniteRank F4) (AmbientModule X4) = Some (Inr True)"
    by (simp add: is_submodule_def F4_def)
  have g: "is_submodule (FiniteRank G4) (Submodule (FiniteRank F4)) = Some (Inr True)"
    unfolding gen4 using G4_in_F4 by (simp add: G4_def)
  have h: "is_submodule (FiniteRank H4) (Submodule (FiniteRank F4)) = Some (Inr False)"
    unfolding gen4 using H4_1_not_in_F4 by (simp add: H4_def)
  from gen f g h show ?thesis by blast
qed

theorem is_submodule_iff_witness:
  "unitriangular_accurate F4
     \<and> is_submodule (FiniteRank G4) (Submodule (FiniteRank F4))
         = Some (Inr (\<forall>b\<in>set (basis_keys G4). \<exists>y. retract F4 (lift G4 (monomial b)) = Some (Inr y)))"
  using is_submodule_iff[of F4 G4] F4_accurate by simp



text \<open>
  C10. When \<open>other\<close> is the ambient module of \<open>self\<close>, \<open>is_submodule\<close> returns \<open>True\<close>
  for every \<open>self\<close>, also for a submodule of infinite rank, for which any submodule as
  \<open>other\<close> gives \<open>NotImplementedError\<close>.
\<close>

theorem is_submodule_ambient:
  "is_submodule self (AmbientModule (sub_ambient self)) = Some (Inr True)
     \<and> is_submodule (InfiniteRank X) (AmbientModule X) = Some (Inr True)
     \<and> is_submodule (InfiniteRank X) (Submodule K) = Some (Inl NotImplementedError)"
  by (simp add: is_submodule_def isinstance_SubmoduleWithBasis_def)

end
